theory Spec2Isabelle
  imports Main "HOL-Library.AList"
begin

section \<open>Data model\<close>

text \<open>
  An event is what the caller passes as \<^verbatim>\<open>event\<close>: a string, or a number (here an
  integer small enough to be printed in plain decimal digits). Symbols are outside this
  model. A callback is a function reference: the source compares
  callbacks with \<^verbatim>\<open>===\<close>, so only their identity matters and a natural number stands for it.
\<close>

datatype event = Str string | Num int

type_synonym callback = nat

text \<open>The only run-time error the class can raise itself.\<close>

datatype js_error = TypeError

text \<open>What can be thrown and caught: a value thrown by a listener, or an error of the runtime.\<close>

datatype fault = Fault string | JsError js_error

text \<open>The type \<^verbatim>\<open>EventListener\<close> of \<^verbatim>\<open>EventListener.ts\<close>.\<close>

record listener_rec =
  listener :: callback
  persistent :: bool

text \<open>
  The private fields of the class \<^verbatim>\<open>EventEmitter\<close>. The object \<^verbatim>\<open>handlers\<close> is the list of
  its own properties in the order of \<^verbatim>\<open>Object.keys\<close>: the keys that are array indices
  first, in ascending order, then the other keys in the order in which they were created.
\<close>

record emitter =
  handlers :: "(string \<times> listener_rec list) list"
  maxListeners :: int

text \<open>What the class sends to the logger with \<^verbatim>\<open>log.warn\<close>: the configured maximum.\<close>

datatype diag = Warn int

text \<open>How a listener invocation ends.\<close>

datatype outcome = Returned | Raised fault

text \<open>
  What one call of \<^verbatim>\<open>emit\<close> does to the outside, in order: it invokes a listener with the
  arguments, and it hands a caught fault to \<^verbatim>\<open>log.error\<close>.
\<close>

datatype 'a action = Invoke callback 'a | Report fault

section \<open>Property keys\<close>

text \<open>The property key of an event: a number is converted to its decimal string.\<close>

definition digit :: "int \<Rightarrow> char" where
  "digit d = ''0123456789'' ! nat d"

function decimal :: "int \<Rightarrow> string" where
  "decimal n = (if n < 10 then [digit n] else decimal (n div 10) @ [digit (n mod 10)])"
  by pat_completeness auto
termination
  by (relation "measure nat") auto

declare decimal.simps [simp del]

fun key_of :: "event \<Rightarrow> string" where
  "key_of (Str k) = k"
| "key_of (Num n) = (if n < 0 then CHR ''-'' # decimal (- n) else decimal n)"

text \<open>
  A key is an array index when it is the decimal string of an integer from 0 to 4294967294;
  \<^verbatim>\<open>Object.keys\<close> lists such keys before all others, in ascending order.
\<close>

definition digits_value :: "string \<Rightarrow> int" where
  "digits_value k = foldl (\<lambda>a c. 10 * a + (of_char c - 48)) 0 k"

definition array_index :: "string \<Rightarrow> int option" where
  "array_index k =
     (let n = digits_value k
      in if 0 \<le> n \<and> n < 4294967295 \<and> decimal n = k then Some n else None)"

definition index_below :: "int \<Rightarrow> string \<times> 'v \<Rightarrow> bool" where
  "index_below n p = (case array_index (fst p) of Some m \<Rightarrow> m < n | None \<Rightarrow> False)"

text \<open>
  Assignment \<^verbatim>\<open>this.handlers[key] = value\<close>: an existing property keeps its place, a new
  one takes its place in the order of \<^verbatim>\<open>Object.keys\<close>.
\<close>

definition assign :: "string \<Rightarrow> 'v \<Rightarrow> (string \<times> 'v) list \<Rightarrow> (string \<times> 'v) list" where
  "assign k v h =
     (if map_of h k \<noteq> None then AList.update k v h
      else case array_index k of
             None \<Rightarrow> h @ [(k, v)]
           | Some n \<Rightarrow> takeWhile (index_below n) h @ (k, v) # dropWhile (index_below n) h)"

text \<open>
  The object is created as \<^verbatim>\<open>{}\<close>, so a key it does not own is looked up in
  \<^verbatim>\<open>Object.prototype\<close>: there it finds a function, of which only the \<^verbatim>\<open>length\<close> matters
  here, or, under \<^verbatim>\<open>__proto__\<close>, the prototype object itself, which has no \<^verbatim>\<open>length\<close>.
\<close>

datatype proto_value = Fun nat | Obj

definition object_prototype :: "string \<Rightarrow> proto_value option" where
  "object_prototype = map_of
     [(''constructor'', Fun 1),
      (''hasOwnProperty'', Fun 1),
      (''isPrototypeOf'', Fun 1),
      (''propertyIsEnumerable'', Fun 1),
      (''toLocaleString'', Fun 0),
      (''toString'', Fun 0),
      (''valueOf'', Fun 0),
      (''__defineGetter__'', Fun 2),
      (''__defineSetter__'', Fun 2),
      (''__lookupGetter__'', Fun 1),
      (''__lookupSetter__'', Fun 1),
      (''__proto__'', Obj)]"

text \<open>The value of \<^verbatim>\<open>this.handlers[key]\<close>.\<close>

datatype slot = Undefined | Entry "listener_rec list" | Inherited proto_value

definition lookup :: "emitter \<Rightarrow> string \<Rightarrow> slot" where
  "lookup s k =
     (case map_of (handlers s) k of
        Some hs \<Rightarrow> Entry hs
      | None \<Rightarrow> (case object_prototype k of Some v \<Rightarrow> Inherited v | None \<Rightarrow> Undefined))"

text \<open>The value of \<^verbatim>\<open>.length\<close> of a slot that is not \<^verbatim>\<open>undefined\<close>; \<open>None\<close> is \<^verbatim>\<open>undefined\<close>.\<close>

fun slot_length :: "slot \<Rightarrow> nat option" where
  "slot_length (Entry hs) = Some (length hs)"
| "slot_length (Inherited (Fun n)) = Some n"
| "slot_length (Inherited Obj) = None"
| "slot_length Undefined = None"

section \<open>Operations\<close>

text \<open>\<^verbatim>\<open>constructor(maxListeners?)\<close>: \<^verbatim>\<open>maxListeners || 10\<close> replaces an absent or zero value.\<close>

definition new_emitter :: "int option \<Rightarrow> emitter" where
  "new_emitter m =
     \<lparr>handlers = [],
      maxListeners = (case m of None \<Rightarrow> 10 | Some n \<Rightarrow> if n = 0 then 10 else n)\<rparr>"

text \<open>
  \<^verbatim>\<open>on(event, listener, prepend?)\<close>. A slot that is \<^verbatim>\<open>undefined\<close> is first set to the empty
  array. The \<^verbatim>\<open>length\<close> of the slot, before the insertion, is compared with the maximum, and
  a warning is logged. The record is then put at the head (\<^verbatim>\<open>unshift\<close>) or at the tail
  (\<^verbatim>\<open>push\<close>); a slot inherited from the prototype has neither method, so there the call
  throws a \<^verbatim>\<open>TypeError\<close> and the object is as it was. The result is the emitter after the
  call, the warnings logged, and the error thrown if any.
\<close>

definition on :: "event \<Rightarrow> callback \<Rightarrow> bool \<Rightarrow> emitter \<Rightarrow> emitter \<times> diag list \<times> js_error option" where
  "on ev l prepend s =
     (let k = key_of ev;
          sl = (case lookup s k of Undefined \<Rightarrow> Entry [] | v \<Rightarrow> v);
          w = (case slot_length sl of
                 Some n \<Rightarrow> if maxListeners s \<le> int n then [Warn (maxListeners s)] else []
               | None \<Rightarrow> []);
          r = \<lparr>listener = l, persistent = True\<rparr>
      in case sl of
           Entry hs \<Rightarrow>
             (s\<lparr>handlers := assign k (if prepend then r # hs else hs @ [r]) (handlers s)\<rparr>, w, None)
         | _ \<Rightarrow> (s, w, Some TypeError))"

text \<open>\<^verbatim>\<open>once(event, listener, prepend?)\<close>: as \<^verbatim>\<open>on\<close>, with no length check and no warning.\<close>

definition once :: "event \<Rightarrow> callback \<Rightarrow> bool \<Rightarrow> emitter \<Rightarrow> emitter \<times> diag list \<times> js_error option" where
  "once ev l prepend s =
     (let k = key_of ev;
          sl = (case lookup s k of Undefined \<Rightarrow> Entry [] | v \<Rightarrow> v);
          r = \<lparr>listener = l, persistent = False\<rparr>
      in case sl of
           Entry hs \<Rightarrow>
             (s\<lparr>handlers := assign k (if prepend then r # hs else hs @ [r]) (handlers s)\<rparr>, [], None)
         | _ \<Rightarrow> (s, [], Some TypeError))"

text \<open>The warnings and the error of such a result; its first component is the emitter.\<close>

definition warned :: "emitter \<times> diag list \<times> js_error option \<Rightarrow> diag list" where
  "warned res = fst (snd res)"

definition thrown :: "emitter \<times> diag list \<times> js_error option \<Rightarrow> js_error option" where
  "thrown res = snd (snd res)"

text \<open>\<^verbatim>\<open>events()\<close> is \<^verbatim>\<open>Object.keys(this.handlers)\<close>.\<close>

definition events :: "emitter \<Rightarrow> string list" where
  "events s = map fst (handlers s)"

text \<open>
  \<^verbatim>\<open>listeners(event)\<close>: the callbacks of a copy of the slot, or of the empty array when the
  slot is \<^verbatim>\<open>undefined\<close>. An inherited slot is truthy and cannot be spread: a \<^verbatim>\<open>TypeError\<close>.
\<close>

definition listeners :: "event \<Rightarrow> emitter \<Rightarrow> js_error + callback list" where
  "listeners ev s =
     (case lookup s (key_of ev) of
        Undefined \<Rightarrow> Inr []
      | Entry hs \<Rightarrow> Inr (map listener hs)
      | Inherited v \<Rightarrow> Inl TypeError)"

text \<open>\<^verbatim>\<open>Array.prototype.findIndex\<close>; \<open>None\<close> stands for the result \<^verbatim>\<open>-1\<close>.\<close>

fun findIndex :: "('a \<Rightarrow> bool) \<Rightarrow> 'a list \<Rightarrow> nat option" where
  "findIndex P [] = None"
| "findIndex P (x # xs) = (if P x then Some 0 else map_option Suc (findIndex P xs))"

text \<open>\<^verbatim>\<open>splice(index, 1)\<close>.\<close>

definition splice1 :: "nat \<Rightarrow> 'a list \<Rightarrow> 'a list" where
  "splice1 i xs = take i xs @ drop (Suc i) xs"

text \<open>
  The loop of \<^verbatim>\<open>off\<close> over the selected keys, which are own keys of the object. With no
  listener given the property is deleted and the loop continues. With a listener, the
  property is read (a \<^verbatim>\<open>TypeError\<close> if it were absent), an empty array is deleted, and the
  first record with that callback is spliced out, the property is deleted if that leaves
  the array empty, and \<^verbatim>\<open>off\<close> returns at once.
\<close>

fun off_loop ::
  "string list \<Rightarrow> callback option \<Rightarrow> (string \<times> listener_rec list) list \<Rightarrow>
   js_error + (string \<times> listener_rec list) list" where
  "off_loop [] l h = Inr h"
| "off_loop (e # es) l h =
     (case l of
        None \<Rightarrow> off_loop es l (AList.delete e h)
      | Some cb \<Rightarrow>
          (case map_of h e of
             None \<Rightarrow> Inl TypeError
           | Some hs \<Rightarrow>
               if hs = [] then off_loop es l (AList.delete e h)
               else
                 (case findIndex (\<lambda>r. listener r = cb) hs of
                    None \<Rightarrow> off_loop es l h
                  | Some i \<Rightarrow>
                      (let hs' = splice1 i hs
                       in Inr (if hs' = [] then AList.delete e h else AList.update e hs' h)))))"

text \<open>
  The test \<^verbatim>\<open>item === event\<close> of \<^verbatim>\<open>off\<close>: the items are the strings of \<^verbatim>\<open>Object.keys\<close>, and
  a number is never strictly equal to a string.
\<close>

fun same_key :: "string \<Rightarrow> event \<Rightarrow> bool" where
  "same_key item (Str k) = (item = k)"
| "same_key item (Num n) = False"

text \<open>\<^verbatim>\<open>off(event?, listener?)\<close>: the keys are filtered from \<^verbatim>\<open>events()\<close> first.\<close>

definition off :: "event option \<Rightarrow> callback option \<Rightarrow> emitter \<Rightarrow> js_error + emitter" where
  "off ev l s =
     (let evs = filter (\<lambda>item. case ev of None \<Rightarrow> True | Some e \<Rightarrow> same_key item e) (events s)
      in case off_loop evs l (handlers s) of
           Inl err \<Rightarrow> Inl err
         | Inr h \<Rightarrow> Inr (s\<lparr>handlers := h\<rparr>))"

text \<open>The \<^verbatim>\<open>catch\<close> block of \<^verbatim>\<open>emit\<close>: a fault goes to \<^verbatim>\<open>log.error\<close>, nothing else happens.\<close>

fun caught :: "outcome \<Rightarrow> 'a action list" where
  "caught Returned = []"
| "caught (Raised f) = [Report f]"

text \<open>
  The dispatch loop of \<^verbatim>\<open>emit\<close>. A listener is any code: \<open>run cb args s\<close> is what the
  invocation of callback \<open>cb\<close> leaves of the emitter, and how it ended. The loop condition
  reads \<^verbatim>\<open>this.handlers[event].length\<close> again before every step, outside the
  \<^verbatim>\<open>try\<close> block, so a property that a listener deleted raises a \<^verbatim>\<open>TypeError\<close> there. Under
  a slot inherited from the prototype there is no record at any index: each step raises a
  \<^verbatim>\<open>TypeError\<close> inside the \<^verbatim>\<open>try\<close> block, which is caught and logged. The loop need not end
  (a listener may register a listener every time it runs), so the result is optional:
  \<open>None\<close> is a dispatch that never returns.
\<close>

partial_function (option) emit_loop ::
  "(callback \<Rightarrow> 'a \<Rightarrow> emitter \<Rightarrow> emitter \<times> outcome) \<Rightarrow> event \<Rightarrow> 'a \<Rightarrow> nat \<Rightarrow> emitter \<Rightarrow>
   'a action list \<Rightarrow> ((js_error + unit) \<times> emitter \<times> 'a action list) option" where
  "emit_loop run ev args i s tr =
     (case lookup s (key_of ev) of
        Undefined \<Rightarrow> Some (Inl TypeError, s, tr)
      | Inherited v \<Rightarrow>
          (case slot_length (Inherited v) of
             None \<Rightarrow> Some (Inr (), s, tr)
           | Some n \<Rightarrow>
               if i < n then emit_loop run ev args (i + 1) s (tr @ [Report (JsError TypeError)])
               else Some (Inr (), s, tr))
      | Entry hs \<Rightarrow>
          if i < length hs then
            (let cb = listener (hs ! i);
                 (s', res) = run cb args s;
                 tr' = tr @ Invoke cb args # caught res
             in emit_loop run ev args (i + 1) s' tr')
          else Some (Inr (), s, tr))"

text \<open>
  \<^verbatim>\<open>emit(event, ...args)\<close>: \<^verbatim>\<open>false\<close> when the slot is \<^verbatim>\<open>undefined\<close> or its \<^verbatim>\<open>length\<close> is 0;
  otherwise the loop, then the array is replaced by its persistent records and the property
  deleted if none is left. An inherited slot has no \<^verbatim>\<open>filter\<close> method: a \<^verbatim>\<open>TypeError\<close>.
\<close>

definition emit ::
  "(callback \<Rightarrow> 'a \<Rightarrow> emitter \<Rightarrow> emitter \<times> outcome) \<Rightarrow> event \<Rightarrow> 'a \<Rightarrow> emitter \<Rightarrow>
   ((js_error + bool) \<times> emitter \<times> 'a action list) option" where
  "emit run ev args s =
     (let k = key_of ev
      in if lookup s k = Undefined \<or> slot_length (lookup s k) = Some 0
         then Some (Inr False, s, [])
         else
           (case emit_loop run ev args 0 s [] of
              None \<Rightarrow> None
            | Some (Inl err, s', tr) \<Rightarrow> Some (Inl err, s', tr)
            | Some (Inr u, s', tr) \<Rightarrow>
                (case lookup s' k of
                   Entry hs' \<Rightarrow>
                     (let kept = filter persistent hs'
                      in Some (Inr True,
                               s'\<lparr>handlers := (if kept = [] then AList.delete k (handlers s')
                                               else AList.update k kept (handlers s'))\<rparr>,
                               tr))
                 | _ \<Rightarrow> Some (Inl TypeError, s', tr))))"

declare emit_loop.simps [code]

section \<open>Observations and invariants\<close>

text \<open>The listener invocations of a dispatch, and the faults it reported, each in order.\<close>

fun invoked :: "'a action list \<Rightarrow> (callback \<times> 'a) list" where
  "invoked [] = []"
| "invoked (Invoke cb a # tr) = (cb, a) # invoked tr"
| "invoked (Report f # tr) = invoked tr"

fun reported :: "'a action list \<Rightarrow> fault list" where
  "reported [] = []"
| "reported (Invoke cb a # tr) = reported tr"
| "reported (Report f # tr) = f # reported tr"

text \<open>The records registered under an event: those of its own property, none without one.\<close>

definition records :: "event \<Rightarrow> emitter \<Rightarrow> listener_rec list" where
  "records ev s = (case map_of (handlers s) (key_of ev) of None \<Rightarrow> [] | Some hs \<Rightarrow> hs)"

text \<open>An object has every key once.\<close>

definition wf_handlers :: "emitter \<Rightarrow> bool" where
  "wf_handlers s \<longleftrightarrow> distinct (events s)"

text \<open>The invariant of the registry: no key is present with an empty listener sequence.\<close>

definition no_empty_entry :: "emitter \<Rightarrow> bool" where
  "no_empty_entry s \<longleftrightarrow> list_all (\<lambda>(e, hs). hs \<noteq> []) (handlers s)"

definition registry_inv :: "emitter \<Rightarrow> bool" where
  "registry_inv s \<longleftrightarrow> wf_handlers s \<and> no_empty_entry s"

text \<open>
  A sequence of registrations under one event: each is a call of \<^verbatim>\<open>on\<close> or of
  \<^verbatim>\<open>once\<close> with a callback and the \<^verbatim>\<open>prepend\<close> flag (absent counts as false).
\<close>

datatype registration = RegOn callback bool | RegOnce callback bool

fun reg_callback :: "registration \<Rightarrow> callback" where
  "reg_callback (RegOn l p) = l"
| "reg_callback (RegOnce l p) = l"

fun reg_prepend :: "registration \<Rightarrow> bool" where
  "reg_prepend (RegOn l p) = p"
| "reg_prepend (RegOnce l p) = p"

fun register :: "event \<Rightarrow> registration \<Rightarrow> emitter \<Rightarrow> emitter" where
  "register ev (RegOn l p) s = fst (on ev l p s)"
| "register ev (RegOnce l p) s = fst (once ev l p s)"

text \<open>
  An event that has no property of its own and whose key names a property of
  \<^verbatim>\<open>Object.prototype\<close>: its slot is the inherited value.
\<close>

definition inherited_only :: "event \<Rightarrow> emitter \<Rightarrow> bool" where
  "inherited_only ev s \<longleftrightarrow>
     map_of (handlers s) (key_of ev) = None \<and> object_prototype (key_of ev) \<noteq> None"

text \<open>
  The last statements of \<^verbatim>\<open>emit\<close> on an own array: the array is replaced by its persistent
  records, and the property is deleted if none is left.
\<close>

definition cleanup :: "event \<Rightarrow> emitter \<Rightarrow> emitter" where
  "cleanup ev s =
     s\<lparr>handlers := (if filter persistent (records ev s) = []
                     then AList.delete (key_of ev) (handlers s)
                     else AList.update (key_of ev) (filter persistent (records ev s)) (handlers s))\<rparr>"

section \<open>Example listeners\<close>

text \<open>Listeners that leave the emitter alone; callback \<open>cb\<close> ends as \<open>res cb\<close> says.\<close>

definition steady :: "(callback \<Rightarrow> outcome) \<Rightarrow> callback \<Rightarrow> 'a \<Rightarrow> emitter \<Rightarrow> emitter \<times> outcome" where
  "steady res cb a s = (s, res cb)"

text \<open>Callback 2 throws, every other callback returns.\<close>

definition second_throws :: "callback \<Rightarrow> outcome" where
  "second_throws cb = (if cb = 2 then Raised (Fault ''boom'') else Returned)"


text \<open>
  Callback 1 calls \<^verbatim>\<open>once("E", cb2, true)\<close> unless callback 2 is registered already; every
  other callback does nothing.
\<close>

definition adding_once :: "callback \<Rightarrow> 'a \<Rightarrow> emitter \<Rightarrow> emitter \<times> outcome" where
  "adding_once cb a s =
     (if cb = 1 \<and> 2 \<notin> listener ` set (records (Str ''E'') s)
      then (fst (once (Str ''E'') 2 True s), Returned)
      else (s, Returned))"

text \<open>Callback 1 calls \<^verbatim>\<open>off("E", cb1)\<close>, removing itself; every other callback does nothing.\<close>

definition removing :: "callback \<Rightarrow> 'a \<Rightarrow> emitter \<Rightarrow> emitter \<times> outcome" where
  "removing cb a s =
     (if cb = 1 then
        (case off (Some (Str ''E'')) (Some 1) s of
           Inr s' \<Rightarrow> (s', Returned)
         | Inl err \<Rightarrow> (s, Raised (JsError err)))
      else (s, Returned))"

text \<open>Callback 1 calls \<^verbatim>\<open>off("E", cb1)\<close> and then throws; every other callback does nothing.\<close>

definition removing_throws :: "callback \<Rightarrow> 'a \<Rightarrow> emitter \<Rightarrow> emitter \<times> outcome" where
  "removing_throws cb a s =
     (if cb = 1 then
        (case off (Some (Str ''E'')) (Some 1) s of
           Inr s' \<Rightarrow> (s', Raised (Fault ''boom''))
         | Inl err \<Rightarrow> (s, Raised (JsError err)))
      else (s, Returned))"

section \<open>Example states\<close>

definition one_listener :: emitter where
  "one_listener = fst (on (Str ''E'') 1 False (new_emitter None))"

definition two_listeners :: emitter where
  "two_listeners = fst (on (Str ''E'') 2 False one_listener)"

definition three_listeners :: emitter where
  "three_listeners = fst (on (Str ''E'') 3 False two_listeners)"

definition mixed_listeners :: emitter where
  "mixed_listeners = fst (once (Str ''E'') 3 False one_listener)"

section \<open>Keys and slots\<close>

lemma map_of_assign: "map_of (assign k v h) = (map_of h)(k \<mapsto> v)"
proof (cases "map_of h k")
  case (Some w)
  then show ?thesis by (simp add: assign_def update_conv')
next
  case None
  then have notin: "k \<notin> fst ` set h" by (simp add: map_of_eq_None_iff)
  show ?thesis
  proof (cases "array_index k")
    case None
    with \<open>map_of h k = None\<close> show ?thesis
      by (auto simp: assign_def map_add_def fun_eq_iff split: option.splits)
  next
    case (Some n)
    let ?P = "index_below n :: string \<times> 'a \<Rightarrow> bool"
    have hh: "map_of h = map_of (dropWhile ?P h) ++ map_of (takeWhile ?P h)"
      by (metis map_of_append takeWhile_dropWhile_id)
    have "set (takeWhile ?P h) \<subseteq> set h" by (auto dest: set_takeWhileD)
    with notin have "k \<notin> fst ` set (takeWhile ?P h)" by auto
    then have t: "map_of (takeWhile ?P h) k = None" by (simp add: map_of_eq_None_iff)
    have "map_of (takeWhile ?P h @ (k, v) # dropWhile ?P h) x = ((map_of h)(k \<mapsto> v)) x" for x
      using t by (auto simp: hh map_add_def split: option.splits)
    with Some \<open>map_of h k = None\<close> show ?thesis
      by (simp add: assign_def fun_eq_iff)
  qed
qed

lemma set_assign_new:
  "map_of h k = None \<Longrightarrow> set (assign k v h) = insert (k, v) (set h)"
proof (cases "array_index k")
  case None
  assume "map_of h k = None"
  with None show ?thesis by (simp add: assign_def)
next
  case (Some n)
  assume m: "map_of h k = None"
  let ?P = "index_below n :: string \<times> 'a \<Rightarrow> bool"
  have "set (takeWhile ?P h) \<union> set (dropWhile ?P h) = set h"
    by (metis set_append takeWhile_dropWhile_id)
  with Some m show ?thesis by (auto simp: assign_def)
qed

lemma distinct_assign:
  assumes "distinct (map fst h)"
  shows "distinct (map fst (assign k v h))"
proof (cases "map_of h k")
  case (Some w)
  with assms show ?thesis by (simp add: assign_def distinct_update)
next
  case None
  then have notin: "k \<notin> fst ` set h" by (simp add: map_of_eq_None_iff)
  show ?thesis
  proof (cases "array_index k")
    case None
    with \<open>map_of h k = None\<close> assms notin show ?thesis by (simp add: assign_def)
  next
    case (Some n)
    let ?P = "index_below n :: string \<times> 'a \<Rightarrow> bool"
    have "distinct (map fst (takeWhile ?P h @ dropWhile ?P h))"
      unfolding takeWhile_dropWhile_id by (rule assms)
    then have d: "distinct (map fst (takeWhile ?P h))" "distinct (map fst (dropWhile ?P h))"
      "fst ` set (takeWhile ?P h) \<inter> fst ` set (dropWhile ?P h) = {}"
      by (simp_all only: map_append distinct_append set_map)
    have "set (takeWhile ?P h) \<subseteq> set h" "set (dropWhile ?P h) \<subseteq> set h"
      by (auto dest: set_takeWhileD set_dropWhileD)
    with notin have "k \<notin> fst ` set (takeWhile ?P h)" "k \<notin> fst ` set (dropWhile ?P h)"
      by auto
    with d have "distinct (map fst (takeWhile ?P h @ (k, v) # dropWhile ?P h))"
      by (simp only: map_append distinct_append set_map list.map distinct.simps fst_conv
                     list.set) auto
    with Some \<open>map_of h k = None\<close> show ?thesis by (simp add: assign_def)
  qed
qed

lemma list_all_update:
  "list_all P al \<Longrightarrow> P (k, v) \<Longrightarrow> list_all P (AList.update k v al)"
  by (induction al) auto


lemma list_all_assign:
  assumes "list_all P h" and "P (k, v)"
  shows "list_all P (assign k v h)"
proof (cases "map_of h k")
  case (Some w)
  with assms show ?thesis by (simp add: assign_def list_all_update)
next
  case None
  from set_assign_new [OF None, of v] assms show ?thesis
    by (simp add: list_all_iff)
qed


lemma lookup_Entry: "lookup s k = Entry hs \<longleftrightarrow> map_of (handlers s) k = Some hs"
  by (auto simp: lookup_def split: option.splits)

lemma records_Entry:
  "hs \<noteq> [] \<Longrightarrow> records ev s = hs \<longleftrightarrow> lookup s (key_of ev) = Entry hs"
  by (auto simp: records_def lookup_def split: option.splits)

lemma records_update:
  "records e (s\<lparr>handlers := AList.update (key_of ev) v (handlers s)\<rparr>) =
     (if key_of e = key_of ev then v else records e s)"
  by (simp add: records_def update_conv')

lemma records_delete:
  "records e (s\<lparr>handlers := AList.delete (key_of ev) (handlers s)\<rparr>) =
     (if key_of e = key_of ev then [] else records e s)"
  by (simp add: records_def delete_conv')

lemma records_assign:
  "records e (s\<lparr>handlers := assign (key_of ev) v (handlers s)\<rparr>) =
     (if key_of e = key_of ev then v else records e s)"
  by (simp add: records_def map_of_assign)

lemma events_delete: "k \<notin> set (events (s\<lparr>handlers := AList.delete k (handlers s)\<rparr>))"
  using delete_notin_dom [of k "handlers s"] by (simp add: events_def)

section \<open>Registration\<close>

text \<open>
  A registration throws exactly when the event has no property of its own and its key
  names a property of \<^verbatim>\<open>Object.prototype\<close>; the emitter is then as it was.
\<close>

lemma thrown_on: "thrown (on ev l p s) = (if inherited_only ev s then Some TypeError else None)"
  by (auto simp: on_def thrown_def lookup_def inherited_only_def Let_def
           split: option.splits slot.splits)

lemma thrown_once: "thrown (once ev l p s) = (if inherited_only ev s then Some TypeError else None)"
  by (auto simp: once_def thrown_def lookup_def inherited_only_def Let_def
           split: option.splits slot.splits)

lemma on_inherited: "inherited_only ev s \<Longrightarrow> fst (on ev l p s) = s"
  by (auto simp: on_def lookup_def inherited_only_def Let_def split: option.splits slot.splits)

lemma once_inherited: "inherited_only ev s \<Longrightarrow> fst (once ev l p s) = s"
  by (auto simp: once_def lookup_def inherited_only_def Let_def split: option.splits slot.splits)

lemma on_state:
  "\<not> inherited_only ev s \<Longrightarrow>
   fst (on ev l p s) =
     s\<lparr>handlers := assign (key_of ev)
          (if p then \<lparr>listener = l, persistent = True\<rparr> # records ev s
           else records ev s @ [\<lparr>listener = l, persistent = True\<rparr>]) (handlers s)\<rparr>"
  by (auto simp: on_def lookup_def inherited_only_def records_def Let_def
           split: option.splits slot.splits)

lemma once_state:
  "\<not> inherited_only ev s \<Longrightarrow>
   fst (once ev l p s) =
     s\<lparr>handlers := assign (key_of ev)
          (if p then \<lparr>listener = l, persistent = False\<rparr> # records ev s
           else records ev s @ [\<lparr>listener = l, persistent = False\<rparr>]) (handlers s)\<rparr>"
  by (auto simp: once_def lookup_def inherited_only_def records_def Let_def
           split: option.splits slot.splits)

lemma records_on:
  "\<not> inherited_only ev s \<Longrightarrow>
   records ev (fst (on ev l p s)) =
     (if p then \<lparr>listener = l, persistent = True\<rparr> # records ev s
      else records ev s @ [\<lparr>listener = l, persistent = True\<rparr>])"
  by (simp add: on_state records_assign)

lemma records_once:
  "\<not> inherited_only ev s \<Longrightarrow>
   records ev (fst (once ev l p s)) =
     (if p then \<lparr>listener = l, persistent = False\<rparr> # records ev s
      else records ev s @ [\<lparr>listener = l, persistent = False\<rparr>])"
  by (simp add: once_state records_assign)


lemma inherited_only_on: "inherited_only ev (fst (on ev l p s)) = inherited_only ev s"
  by (cases "inherited_only ev s")
     (simp_all add: on_inherited on_state inherited_only_def map_of_assign)

lemma inherited_only_once: "inherited_only ev (fst (once ev l p s)) = inherited_only ev s"
  by (cases "inherited_only ev s")
     (simp_all add: once_inherited once_state inherited_only_def map_of_assign)

lemma warned_on:
  "\<not> inherited_only ev s \<Longrightarrow>
   warned (on ev l p s) =
     (if maxListeners s \<le> int (length (records ev s)) then [Warn (maxListeners s)] else [])"
  by (auto simp: on_def warned_def lookup_def inherited_only_def records_def Let_def
           split: option.splits slot.splits)

lemma listeners_records:
  "\<not> inherited_only ev s \<Longrightarrow> listeners ev s = Inr (map listener (records ev s))"
  by (auto simp: listeners_def lookup_def inherited_only_def records_def
           split: option.splits slot.splits)

lemma listeners_inherited: "inherited_only ev s \<Longrightarrow> listeners ev s = Inl TypeError"
  by (auto simp: listeners_def lookup_def inherited_only_def split: option.splits)

lemma inherited_only_register: "inherited_only ev (register ev r s) = inherited_only ev s"
  by (cases r) (simp_all add: inherited_only_on inherited_only_once)

lemma records_register:
  "\<not> inherited_only ev s \<Longrightarrow>
   map listener (records ev (register ev r s)) =
     (if reg_prepend r then reg_callback r # map listener (records ev s)
      else map listener (records ev s) @ [reg_callback r])"
  by (cases r) (simp_all add: records_on records_once)

lemma records_fold_register:
  "\<not> inherited_only ev s \<Longrightarrow>
   map listener (records ev (fold (register ev) rs s)) =
     rev (map reg_callback (filter reg_prepend rs)) @ map listener (records ev s) @
     map reg_callback (filter (\<lambda>r. \<not> reg_prepend r) rs)"
proof (induction rs arbitrary: s)
  case Nil
  then show ?case by simp
next
  case (Cons r rs)
  from Cons.prems have "\<not> inherited_only ev (register ev r s)"
    by (simp add: inherited_only_register)
  from Cons.IH [OF this] Cons.prems show ?case
    by (simp add: records_register)
qed

lemma inherited_only_fold: "inherited_only ev (fold (register ev) rs s) = inherited_only ev s"
  by (induction rs arbitrary: s) (simp_all add: inherited_only_register)

text \<open>
  Registration order. After any sequence \<open>rs\<close> of successful \<^verbatim>\<open>on\<close> and \<^verbatim>\<open>once\<close>
  registrations under one event, \<^verbatim>\<open>listeners(event)\<close> is: the prepended callbacks, the
  latest first; then the callbacks that were there before; then the appended callbacks,
  the earliest first.
\<close>

lemma listeners_fold_register:
  assumes "\<not> inherited_only ev s"
  shows "listeners ev (fold (register ev) rs s) =
     Inr (rev (map reg_callback (filter reg_prepend rs)) @ map listener (records ev s) @
          map reg_callback (filter (\<lambda>r. \<not> reg_prepend r) rs))"
  using assms by (simp add: listeners_records inherited_only_fold records_fold_register)

section \<open>Dispatch\<close>

lemma invoked_append: "invoked (xs @ ys) = invoked xs @ invoked ys"
  by (induction xs rule: invoked.induct) simp_all

lemma reported_append: "reported (xs @ ys) = reported xs @ reported ys"
  by (induction xs rule: reported.induct) simp_all

lemma invoked_caught: "invoked (caught res) = []"
  by (cases res) simp_all

lemma reported_caught: "reported (caught res) = (case res of Returned \<Rightarrow> [] | Raised f \<Rightarrow> [f])"
  by (cases res) simp_all

text \<open>One step of the loop on an own array.\<close>

lemma emit_loop_step:
  assumes "lookup s (key_of ev) = Entry hs" and "i < length hs"
    and "run (listener (hs ! i)) args s = (s1, r1)"
  shows "emit_loop run ev args i s tr =
         emit_loop run ev args (Suc i) s1 (tr @ Invoke (listener (hs ! i)) args # caught r1)"
  by (subst emit_loop.simps) (simp add: assms Let_def)

lemma emit_loop_exit:
  assumes "lookup s (key_of ev) = Entry hs" and "\<not> i < length hs"
  shows "emit_loop run ev args i s tr = Some (Inr (), s, tr)"
  by (subst emit_loop.simps) (simp add: assms)



lemma records_cleanup: "records ev (cleanup ev s) = filter persistent (records ev s)"
  by (simp add: cleanup_def records_update records_delete)


lemma emit_after_loop:
  assumes "records ev s = hs" and "hs \<noteq> []"
    and "emit_loop run ev args 0 s [] = Some (Inr (), s1, tr)"
    and "records ev s1 = hs1" and "hs1 \<noteq> []"
  shows "emit run ev args s = Some (Inr True, cleanup ev s1, tr)"
proof -
  from assms(1,2) have "lookup s (key_of ev) = Entry hs" by (simp add: records_Entry)
  moreover from assms(4,5) have "lookup s1 (key_of ev) = Entry hs1" by (simp add: records_Entry)
  ultimately show ?thesis
    using assms by (simp add: emit_def cleanup_def Let_def)
qed








text \<open>Every result of \<^verbatim>\<open>emit\<close> is built from a result of the loop, or is the early \<^verbatim>\<open>false\<close>.\<close>

lemma emit_cases:
  assumes "emit run ev args s = Some (r, s', tr)"
  shows "(r = Inr False \<and> s' = s \<and> tr = [] \<and>
          (lookup s (key_of ev) = Undefined \<or> slot_length (lookup s (key_of ev)) = Some 0)) \<or>
         (\<exists>e. r = Inl e \<and> emit_loop run ev args 0 s [] = Some (Inl e, s', tr)) \<or>
         (r = Inl TypeError \<and> emit_loop run ev args 0 s [] = Some (Inr (), s', tr) \<and>
          map_of (handlers s') (key_of ev) = None) \<or>
         (\<exists>s1. r = Inr True \<and> emit_loop run ev args 0 s [] = Some (Inr (), s1, tr) \<and>
               records ev s1 \<noteq> [] \<and> s' = cleanup ev s1 \<and>
               lookup s (key_of ev) \<noteq> Undefined \<and>
               slot_length (lookup s (key_of ev)) \<noteq> Some 0) \<or>
         (\<exists>s1. r = Inr True \<and> emit_loop run ev args 0 s [] = Some (Inr (), s1, tr) \<and>
               lookup s1 (key_of ev) = Entry [] \<and> s' = cleanup ev s1)"
proof (cases "lookup s (key_of ev) = Undefined \<or> slot_length (lookup s (key_of ev)) = Some 0")
  case True
  with assms show ?thesis by (auto simp: emit_def)
next
  case False
  with assms obtain y where l: "emit_loop run ev args 0 s [] = Some y"
    by (cases "emit_loop run ev args 0 s []") (auto simp: emit_def)
  obtain r1 s1 tr1 where y: "y = (r1, s1, tr1)" by (cases y)
  show ?thesis
  proof (cases r1)
    case (Inl e)
    with assms False l y show ?thesis by (auto simp: emit_def)
  next
    case (Inr u)
    show ?thesis
    proof (cases "lookup s1 (key_of ev)")
      case Undefined
      then have "map_of (handlers s1) (key_of ev) = None"
        by (auto simp: lookup_def split: option.splits)
      with assms False l y Inr Undefined show ?thesis by (auto simp: emit_def)
    next
      case (Inherited v)
      then have "map_of (handlers s1) (key_of ev) = None"
        by (auto simp: lookup_def split: option.splits)
      with assms False l y Inr Inherited show ?thesis by (auto simp: emit_def)
    next
      case (Entry hs1)
      then have "records ev s1 = hs1" by (simp add: lookup_Entry records_def)
      with assms False l y Inr Entry show ?thesis
        by (cases "hs1 = []") (auto simp: emit_def cleanup_def Let_def)
    qed
  qed
qed


section \<open>Removal\<close>

lemma findIndex_None: "findIndex P xs = None \<longleftrightarrow> (\<forall>x \<in> set xs. \<not> P x)"
  by (induction xs) auto

lemma findIndex_first:
  "P r \<Longrightarrow> \<forall>x \<in> set pre. \<not> P x \<Longrightarrow> findIndex P (pre @ r # post) = Some (length pre)"
  by (induction pre) auto

lemma splice1_first: "splice1 (length pre) (pre @ r # post) = pre @ post"
  by (simp add: splice1_def)

lemma filter_key_distinct:
  "distinct ks \<Longrightarrow> filter (\<lambda>item. item = k) ks = (if k \<in> set ks then [k] else [])"
  by (induction ks) auto



lemma registry_inv_assign:
  "registry_inv s \<Longrightarrow> hs \<noteq> [] \<Longrightarrow> registry_inv (s\<lparr>handlers := assign k hs (handlers s)\<rparr>)"
  by (simp add: registry_inv_def wf_handlers_def no_empty_entry_def events_def
                distinct_assign list_all_assign)

lemma registry_inv_on: "registry_inv s \<Longrightarrow> registry_inv (fst (on ev l p s))"
  by (cases "inherited_only ev s") (simp_all add: on_inherited on_state registry_inv_assign)

lemma registry_inv_once: "registry_inv s \<Longrightarrow> registry_inv (fst (once ev l p s))"
  by (cases "inherited_only ev s") (simp_all add: once_inherited once_state registry_inv_assign)

lemma registry_inv_new: "registry_inv (new_emitter m)"
  by (simp add: new_emitter_def registry_inv_def wf_handlers_def no_empty_entry_def events_def
           split: option.splits)

lemma registry_inv_fold: "registry_inv s \<Longrightarrow> registry_inv (fold (register ev) rs s)"
proof (induction rs arbitrary: s)
  case Nil
  then show ?case by simp
next
  case (Cons r rs)
  then show ?case by (cases r) (simp_all add: registry_inv_on registry_inv_once)
qed





lemma inv_lookup:
  assumes "registry_inv s"
  shows "records ev s \<noteq> [] \<longleftrightarrow> key_of ev \<in> set (events s)"
    and "key_of ev \<in> set (events s) \<Longrightarrow> map_of (handlers s) (key_of ev) = Some (records ev s)"
proof -
  from assms have n: "list_all (\<lambda>(e, hs). hs \<noteq> []) (handlers s)"
    by (simp add: registry_inv_def no_empty_entry_def)
  have k: "key_of ev \<in> set (events s) \<longleftrightarrow> map_of (handlers s) (key_of ev) \<noteq> None"
    by (simp add: events_def map_of_eq_None_iff)
  have "hs \<noteq> []" if "map_of (handlers s) (key_of ev) = Some hs" for hs
    using map_of_SomeD [OF that] n by (auto simp: list_all_iff)
  with k show "records ev s \<noteq> [] \<longleftrightarrow> key_of ev \<in> set (events s)"
    by (auto simp: records_def split: option.splits)
  show "map_of (handlers s) (key_of ev) = Some (records ev s)" if "key_of ev \<in> set (events s)"
    using that k by (auto simp: records_def split: option.splits)
qed



text \<open>
  An event given as a number is never strictly equal to a key, which is a string: no key
  is selected and \<^verbatim>\<open>off\<close> removes nothing, whatever is registered under the key of that
  number.
\<close>

lemma off_number: "off (Some (Num n)) lo s = Inr s"
  by (simp add: off_def)

lemma off_event_no_match:
  assumes i: "registry_inv s" and n: "cb \<notin> listener ` set (records (Str k) s)"
  shows "off (Some (Str k)) (Some cb) s = Inr s"
proof (cases "k \<in> set (events s)")
  case False
  from i have "distinct (events s)" by (simp add: registry_inv_def wf_handlers_def)
  with False show ?thesis by (simp add: off_def filter_key_distinct)
next
  case True
  from i have d: "distinct (events s)" by (simp add: registry_inv_def wf_handlers_def)
  from inv_lookup [OF i, of "Str k"] True
  have m: "map_of (handlers s) k = Some (records (Str k) s)" and ne: "records (Str k) s \<noteq> []"
    by simp_all
  from n have "findIndex (\<lambda>r. listener r = cb) (records (Str k) s) = None"
    by (auto simp: findIndex_None)
  with d True m ne show ?thesis
    by (simp add: off_def filter_key_distinct)
qed

lemma off_event_first_match:
  assumes i: "registry_inv s" and r: "records (Str k) s = pre @ r # post"
    and c: "listener r = cb" and p: "cb \<notin> listener ` set pre"
  shows "off (Some (Str k)) (Some cb) s =
           Inr (s\<lparr>handlers := (if pre @ post = [] then AList.delete k (handlers s)
                               else AList.update k (pre @ post) (handlers s))\<rparr>)"
proof -
  from i have d: "distinct (events s)" by (simp add: registry_inv_def wf_handlers_def)
  from r have ne: "records (Str k) s \<noteq> []" by simp
  with inv_lookup [OF i, of "Str k"] have k: "k \<in> set (events s)"
    and m: "map_of (handlers s) k = Some (pre @ r # post)"
    using r by simp_all
  from c p have "findIndex (\<lambda>r. listener r = cb) (pre @ r # post) = Some (length pre)"
    by (intro findIndex_first) (auto intro: rev_image_eqI)
  with d k m show ?thesis
    by (simp add: off_def filter_key_distinct splice1_first Let_def)
qed

lemma first_match_split:
  assumes "cb \<in> listener ` set hs"
  shows "\<exists>pre r post. hs = pre @ r # post \<and> listener r = cb \<and> cb \<notin> listener ` set pre"
proof -
  from assms have "\<exists>x \<in> set hs. listener x = cb" by auto
  from split_list_first_prop [OF this] show ?thesis by (metis imageE)
qed

lemma records_off_state:
  "records e (s\<lparr>handlers := (if hs = [] then AList.delete k (handlers s)
                              else AList.update k hs (handlers s))\<rparr>) =
     (if key_of e = k then hs else records e s)"
  using records_update [where e = e and s = s and ev = "Str k" and v = hs]
        records_delete [where e = e and s = s and ev = "Str k"]
  by simp

lemma off_event_remove1:
  assumes i: "registry_inv s"
  shows "\<exists>s'. off (Some (Str k)) (Some cb) s = Inr s' \<and>
              map listener (records (Str k) s') = remove1 cb (map listener (records (Str k) s)) \<and>
              (\<forall>e. key_of e \<noteq> k \<longrightarrow> records e s' = records e s)"
proof (cases "cb \<in> listener ` set (records (Str k) s)")
  case False
  with off_event_no_match [OF i False] show ?thesis
    by (simp add: remove1_idem)
next
  case True
  then obtain pre r post where r: "records (Str k) s = pre @ r # post"
    and l: "listener r = cb" and p: "cb \<notin> listener ` set pre"
    using first_match_split [of cb "records (Str k) s"] by auto
  let ?s' = "s\<lparr>handlers := (if pre @ post = [] then AList.delete k (handlers s)
                               else AList.update k (pre @ post) (handlers s))\<rparr>"
  have "records e ?s' = (if key_of e = k then pre @ post else records e s)" for e
    by (rule records_off_state)
  then have "records (Str k) ?s' = pre @ post"
    "\<forall>e. key_of e \<noteq> k \<longrightarrow> records e ?s' = records e s"
    by simp_all
  moreover have "remove1 cb (map listener (records (Str k) s)) = map listener (pre @ post)"
    using r l p by (simp add: remove1_append)
  ultimately show ?thesis
    using off_event_first_match [OF i r l p] by simp
qed

lemma plain_name_listeners:
  "object_prototype k = None \<Longrightarrow> listeners (Str k) s = Inr (map listener (records (Str k) s))"
  by (simp add: listeners_records inherited_only_def)

text \<open>
  Claim C6, amended. For an event given as a string, on a registry that satisfies its
  invariant, \<^verbatim>\<open>off(event, callback)\<close> raises nothing. If no record of the event has the
  callback (in particular if the event has no listener) the emitter is unchanged. Otherwise
  exactly one record is removed, the first with that callback in the order of the sequence,
  which is the order of \<^verbatim>\<open>listeners(event)\<close>: the records before and after it stay, in order,
  later duplicates included; the key is deleted when the sequence becomes empty; the other
  events and the maximum are untouched. For an event name that \<^verbatim>\<open>Object.prototype\<close> does not
  have: after the same callback is registered twice with \<^verbatim>\<open>on\<close>, one \<^verbatim>\<open>off\<close> leaves one more
  registration of it than there was before the two; and after registrations at the tail on
  a new emitter the record removed is the earliest registered one.
\<close>

theorem off_removes_first_match:
  assumes "registry_inv s"
  shows "(cb \<notin> listener ` set (records (Str k) s) \<longrightarrow> off (Some (Str k)) (Some cb) s = Inr s) \<and>
         (records (Str k) s = pre @ r # post \<and> listener r = cb \<and> cb \<notin> listener ` set pre \<longrightarrow>
            (\<exists>s'. off (Some (Str k)) (Some cb) s = Inr s' \<and>
                  records (Str k) s' = pre @ post \<and>
                  (pre @ post = [] \<longrightarrow> k \<notin> set (events s')) \<and>
                  (\<forall>e. key_of e \<noteq> k \<longrightarrow> records e s' = records e s) \<and>
                  maxListeners s' = maxListeners s)) \<and>
         (\<exists>s'. off (Some (Str k)) (Some cb) s = Inr s' \<and>
               map listener (records (Str k) s') = remove1 cb (map listener (records (Str k) s)) \<and>
               (\<forall>e. key_of e \<noteq> k \<longrightarrow> records e s' = records e s) \<and>
               (object_prototype k = None \<longrightarrow>
                  (\<exists>cbs. listeners (Str k) s = Inr cbs \<and>
                         listeners (Str k) s' = Inr (remove1 cb cbs)))) \<and>
         (object_prototype k = None \<longrightarrow>
            (\<exists>s'. off (Some (Str k)) (Some cb)
                    (fst (on (Str k) cb False (fst (on (Str k) cb False s)))) = Inr s' \<and>
                  count_list (map listener (records (Str k) s')) cb =
                    Suc (count_list (map listener (records (Str k) s)) cb))) \<and>
         (object_prototype k = None \<and> (\<forall>x \<in> set rs. \<not> reg_prepend x) \<longrightarrow>
            (\<exists>s'. off (Some (Str k)) (Some cb) (fold (register (Str k)) rs (new_emitter m)) = Inr s' \<and>
                  listeners (Str k) s' = Inr (remove1 cb (map reg_callback rs))))"
proof (intro conjI impI)
  assume "object_prototype k = None \<and> (\<forall>x \<in> set rs. \<not> reg_prepend x)"
  then have plain: "object_prototype k = None" and tail: "\<forall>x \<in> set rs. \<not> reg_prepend x"
    by simp_all
  from tail have "filter reg_prepend rs = []" "filter (\<lambda>r. \<not> reg_prepend r) rs = rs"
    by (simp_all add: filter_empty_conv)
  moreover have "records (Str k) (new_emitter m) = []"
    by (simp add: records_def new_emitter_def split: option.splits)
  moreover from plain have "\<not> inherited_only (Str k) (new_emitter m)"
    by (simp add: inherited_only_def)
  ultimately
  have "map listener (records (Str k) (fold (register (Str k)) rs (new_emitter m))) =
          map reg_callback rs"
    by (simp add: records_fold_register)
  with off_event_remove1 [OF registry_inv_fold [OF registry_inv_new], of k cb "Str k" rs m]
  show "\<exists>s'. off (Some (Str k)) (Some cb) (fold (register (Str k)) rs (new_emitter m)) = Inr s' \<and>
                  listeners (Str k) s' = Inr (remove1 cb (map reg_callback rs))"
    by (auto simp: plain_name_listeners [OF plain])
next
  from off_event_remove1 [OF assms, of k cb]
  show "\<exists>s'. off (Some (Str k)) (Some cb) s = Inr s' \<and>
               map listener (records (Str k) s') = remove1 cb (map listener (records (Str k) s)) \<and>
               (\<forall>e. key_of e \<noteq> k \<longrightarrow> records e s' = records e s) \<and>
               (object_prototype k = None \<longrightarrow>
                  (\<exists>cbs. listeners (Str k) s = Inr cbs \<and>
                         listeners (Str k) s' = Inr (remove1 cb cbs)))"
    by (auto simp: plain_name_listeners)
next
  assume "cb \<notin> listener ` set (records (Str k) s)"
  with assms show "off (Some (Str k)) (Some cb) s = Inr s" by (rule off_event_no_match)
next
  assume a: "records (Str k) s = pre @ r # post \<and> listener r = cb \<and> cb \<notin> listener ` set pre"
  let ?s' = "s\<lparr>handlers := (if pre @ post = [] then AList.delete k (handlers s)
                               else AList.update k (pre @ post) (handlers s))\<rparr>"
  from a off_event_first_match [OF assms, of k pre r post cb]
  have "off (Some (Str k)) (Some cb) s = Inr ?s'" by blast
  moreover have "records e ?s' = (if key_of e = k then pre @ post else records e s)" for e
    by (rule records_off_state)
  then have "records (Str k) ?s' = pre @ post"
    "\<forall>e. key_of e \<noteq> k \<longrightarrow> records e ?s' = records e s"
    by simp_all
  moreover have "maxListeners ?s' = maxListeners s" by simp
  moreover have "pre @ post = [] \<longrightarrow> k \<notin> set (events ?s')"
    using events_delete [of k s] by simp
  ultimately show "\<exists>s'. off (Some (Str k)) (Some cb) s = Inr s' \<and>
                  records (Str k) s' = pre @ post \<and>
                  (pre @ post = [] \<longrightarrow> k \<notin> set (events s')) \<and>
                  (\<forall>e. key_of e \<noteq> k \<longrightarrow> records e s' = records e s) \<and>
                  maxListeners s' = maxListeners s"
    by blast
next
  assume plain: "object_prototype k = None"
  let ?s2 = "fst (on (Str k) cb False (fst (on (Str k) cb False s)))"
  have i2: "registry_inv ?s2" using assms by (intro registry_inv_on)
  from plain have n: "\<not> inherited_only (Str k) t" for t by (simp add: inherited_only_def)
  have l2: "map listener (records (Str k) ?s2) = map listener (records (Str k) s) @ [cb, cb]"
    by (simp add: records_on n)
  from off_event_remove1 [OF i2, of k cb]
  obtain s' where o: "off (Some (Str k)) (Some cb) ?s2 = Inr s'"
    and m: "map listener (records (Str k) s') = remove1 cb (map listener (records (Str k) ?s2))"
    by blast
  have "count_list (remove1 cb (xs @ [cb, cb])) cb = Suc (count_list xs cb)" for xs :: "callback list"
    by (induction xs) auto
  with m l2 have "count_list (map listener (records (Str k) s')) cb =
                    Suc (count_list (map listener (records (Str k) s)) cb)"
    by simp
  with o show "\<exists>s'. off (Some (Str k)) (Some cb) ?s2 = Inr s' \<and>
               count_list (map listener (records (Str k) s')) cb =
                 Suc (count_list (map listener (records (Str k) s)) cb)"
    by blast
qed

theorem off_removes_first_match_witness:
  "registry_inv (new_emitter None) \<and>
   off (Some (Str ''E'')) (Some 7) (new_emitter None) = Inr (new_emitter None) \<and>
   (\<exists>s'. off (Some (Str ''E'')) (Some 7)
           (fst (on (Str ''E'') 7 False (fst (on (Str ''E'') 7 False (new_emitter None))))) = Inr s' \<and>
         count_list (map listener (records (Str ''E'') s')) 7 = 1) \<and>
   (\<exists>s'. off (Some (Str ''E'')) (Some 7)
           (fold (register (Str ''E'')) [RegOn 7 False, RegOn 8 False, RegOnce 7 False]
              (new_emitter None)) = Inr s' \<and>
         listeners (Str ''E'') s' = Inr [8, 7]) \<and>
   (\<exists>s'. off (Some (Str ''E'')) (Some 3) mixed_listeners = Inr s' \<and>
         records (Str ''E'') s' = [\<lparr>listener = 1, persistent = True\<rparr>])"
proof -
  have i0: "registry_inv (new_emitter None)" by code_simp
  have i1: "registry_inv mixed_listeners" by code_simp
  have r1: "records (Str ''E'') mixed_listeners =
              [\<lparr>listener = 1, persistent = True\<rparr>] @ \<lparr>listener = 3, persistent = False\<rparr> # []"
    by code_simp
  have l0: "records (Str ''E'') (new_emitter None) = []" by code_simp
  have p: "object_prototype ''E'' = None" by code_simp
  from off_removes_first_match
         [OF i0, of 7 "''E''" "[]" "\<lparr>listener = 7, persistent = True\<rparr>" "[]"
                    "[RegOn 7 False, RegOn 8 False, RegOnce 7 False]" None] l0 p
  have a: "off (Some (Str ''E'')) (Some 7) (new_emitter None) = Inr (new_emitter None)"
    and b: "\<exists>s'. off (Some (Str ''E'')) (Some 7)
                    (fst (on (Str ''E'') 7 False (fst (on (Str ''E'') 7 False (new_emitter None))))) =
                    Inr s' \<and>
                 count_list (map listener (records (Str ''E'') s')) 7 = 1"
    and d: "\<exists>s'. off (Some (Str ''E'')) (Some 7)
                    (fold (register (Str ''E'')) [RegOn 7 False, RegOn 8 False, RegOnce 7 False]
                       (new_emitter None)) = Inr s' \<and>
                 listeners (Str ''E'') s' = Inr [8, 7]"
    by simp_all
  from off_removes_first_match
         [OF i1, of 3 "''E''" "[\<lparr>listener = 1, persistent = True\<rparr>]"
                    "\<lparr>listener = 3, persistent = False\<rparr>" "[]" "[]" None] r1
  have c: "\<exists>s'. off (Some (Str ''E'')) (Some 3) mixed_listeners = Inr s' \<and>
                 records (Str ''E'') s' = [\<lparr>listener = 1, persistent = True\<rparr>]"
    by auto
  from i0 a b c d show ?thesis by blast
qed

text \<open>
  Claim C6 as stated fails on the code. After \<^verbatim>\<open>on("E", cb7)\<close> and then
  \<^verbatim>\<open>once("E", cb7, true)\<close> the later registration is at the head of the sequence, and
  \<^verbatim>\<open>off("E", cb7)\<close> removes that one: the record left is the persistent one, which was
  registered first.
\<close>

theorem off_removes_first_match_counterexample:
  "off (Some (Str ''E'')) (Some 7)
     (fst (once (Str ''E'') 7 True (fst (on (Str ''E'') 7 False (new_emitter None))))) =
     Inr \<lparr>handlers = [(''E'', [\<lparr>listener = 7, persistent = True\<rparr>])], maxListeners = 10\<rparr>"
  by code_simp

text \<open>
  Claim C7 fails on the code. With callback 7 registered under \<open>A\<close> and under \<open>B\<close>,
  \<^verbatim>\<open>off(undefined, cb7)\<close> removes it from \<open>A\<close>, the first event in key order with a match,
  and returns from inside the loop: the registration under \<open>B\<close> stays.
\<close>

theorem off_without_event_stops_at_first_match:
  "off None (Some 7)
     (fst (on (Str ''B'') 7 False (fst (on (Str ''A'') 7 False (new_emitter None))))) =
     Inr \<lparr>handlers = [(''B'', [\<lparr>listener = 7, persistent = True\<rparr>])], maxListeners = 10\<rparr> \<and>
   listeners (Str ''B'')
     \<lparr>handlers = [(''B'', [\<lparr>listener = 7, persistent = True\<rparr>])], maxListeners = 10\<rparr> = Inr [7]"
  by code_simp

section \<open>The invariant of the registry\<close>



section \<open>The live sequence\<close>




section \<open>Faults of listeners\<close>

lemma emit_loop_static_trace:
  "records ev s = hs \<Longrightarrow> hs \<noteq> [] \<Longrightarrow> i \<le> length hs \<Longrightarrow>
   (\<forall>h \<in> set hs. \<forall>t. records ev t = hs \<longrightarrow>
      records ev (fst (run (listener h) args t)) = hs \<and>
      snd (run (listener h) args t) = res (listener h)) \<Longrightarrow>
   \<exists>s'. emit_loop run ev args i s tr =
          Some (Inr (), s',
                tr @ concat (map (\<lambda>h. Invoke (listener h) args # caught (res (listener h)))
                                 (drop i hs))) \<and>
        records ev s' = hs"
proof (induction "length hs - i" arbitrary: i s tr)
  case 0
  then have "i = length hs" by simp
  moreover from 0 have "lookup s (key_of ev) = Entry hs" by (simp add: records_Entry)
  ultimately show ?case using 0 by (simp add: emit_loop_exit)
next
  case (Suc n)
  then have lt: "i < length hs" by simp
  from Suc.prems have e: "lookup s (key_of ev) = Entry hs" by (simp add: records_Entry)
  obtain s1 r1 where r: "run (listener (hs ! i)) args s = (s1, r1)"
    by (cases "run (listener (hs ! i)) args s")
  from Suc.prems(1,4) lt r have m1: "records ev s1 = hs" and r1: "r1 = res (listener (hs ! i))"
    by (metis fst_conv nth_mem, metis snd_conv nth_mem)
  have n: "n = length hs - Suc i" using Suc.hyps(2) by simp
  have "Suc i \<le> length hs" using lt by simp
  from Suc.hyps(1) [where i = "Suc i" and s = s1
      and tr = "tr @ Invoke (listener (hs ! i)) args # caught r1",
      OF n m1 Suc.prems(2) this Suc.prems(4)]
  obtain s' where
    l: "emit_loop run ev args (Suc i) s1 (tr @ Invoke (listener (hs ! i)) args # caught r1) =
          Some (Inr (), s',
                (tr @ Invoke (listener (hs ! i)) args # caught r1) @
                concat (map (\<lambda>h. Invoke (listener h) args # caught (res (listener h)))
                            (drop (Suc i) hs)))"
    and m: "records ev s' = hs"
    by auto
  have d: "drop i hs = hs ! i # drop (Suc i) hs"
    using lt by (simp add: Cons_nth_drop_Suc)
  have "emit_loop run ev args i s tr =
          Some (Inr (), s',
                tr @ concat (map (\<lambda>h. Invoke (listener h) args # caught (res (listener h)))
                                 (drop i hs)))"
    using emit_loop_step [where run = run and args = args and tr = tr, OF e lt r] l
    by (simp add: d r1)
  with m show ?case by blast
qed

text \<open>
  Listeners that leave the sequence of the event as it is, callback \<open>cb\<close> ending as
  \<open>res cb\<close> says (returning or raising): \<^verbatim>\<open>emit\<close> returns \<^verbatim>\<open>true\<close>, it invokes every
  listener of the sequence once and in order, whichever of them raise, and each fault is
  reported to the logger right after the invocation that raised it.
\<close>

lemma emit_static_trace:
  assumes r: "records ev s = hs" and ne: "hs \<noteq> []"
    and H: "\<forall>h \<in> set hs. \<forall>t. records ev t = hs \<longrightarrow>
                 records ev (fst (run (listener h) args t)) = hs \<and>
                 snd (run (listener h) args t) = res (listener h)"
  shows "\<exists>s' tr. emit run ev args s = Some (Inr True, s', tr) \<and>
           tr = concat (map (\<lambda>h. Invoke (listener h) args # caught (res (listener h))) hs) \<and>
           invoked tr = map (\<lambda>h. (listener h, args)) hs \<and>
           reported tr =
             concat (map (\<lambda>h. case res (listener h) of Returned \<Rightarrow> [] | Raised f \<Rightarrow> [f]) hs)"
proof -
  let ?tr = "concat (map (\<lambda>h. Invoke (listener h) args # caught (res (listener h))) hs)"
  from emit_loop_static_trace [where i = 0 and tr = "[]" and run = run and args = args
      and res = res, OF r ne _ H]
  obtain s' where l: "emit_loop run ev args 0 s [] = Some (Inr (), s', ?tr)"
    and m': "records ev s' = hs"
    by auto
  from emit_after_loop [OF r ne l m' ne]
  have e: "emit run ev args s = Some (Inr True, cleanup ev s', ?tr)" .
  have iv: "invoked (concat (map (\<lambda>h. Invoke (listener h) args # caught (res (listener h))) xs)) =
              map (\<lambda>h. (listener h, args)) xs" for xs
    by (induction xs) (simp_all add: invoked_append invoked_caught)
  have rp: "reported (concat (map (\<lambda>h. Invoke (listener h) args # caught (res (listener h))) xs)) =
              concat (map (\<lambda>h. case res (listener h) of Returned \<Rightarrow> [] | Raised f \<Rightarrow> [f]) xs)" for xs
    by (induction xs) (simp_all add: reported_append reported_caught)
  from e iv rp show ?thesis by blast
qed

text \<open>
  Claim C2 fails on the code. Callbacks 1, 2 and 3 are registered under \<open>E\<close>; callback 1
  calls \<^verbatim>\<open>off("E", cb1)\<close> and then throws. The fault is caught and reported and \<^verbatim>\<open>emit\<close>
  returns \<^verbatim>\<open>true\<close>, but the removal has moved callback 2 to the index just visited:
  the loop goes on with callback 3 and callback 2 is never invoked.
\<close>

theorem emit_skips_listener_after_removal:
  "listeners (Str ''E'') three_listeners = Inr [1, 2, 3] \<and>
   emit removing_throws (Str ''E'') (42::int) three_listeners =
     Some (Inr True,
           \<lparr>handlers = [(''E'', [\<lparr>listener = 2, persistent = True\<rparr>,
                                 \<lparr>listener = 3, persistent = True\<rparr>])],
            maxListeners = 10\<rparr>,
           [Invoke 1 42, Report (Fault ''boom''), Invoke 3 42])"
  by code_simp

section \<open>The result of a dispatch\<close>


text \<open>
  Claim C4 fails on the code, in both directions. \<^verbatim>\<open>emit("hasOwnProperty")\<close> on a new
  emitter, where no event has a listener, does not return \<^verbatim>\<open>false\<close>: the slot is the method
  inherited from \<^verbatim>\<open>Object.prototype\<close>, of length 1, so the loop runs once, a \<^verbatim>\<open>TypeError\<close>
  is reported, and the cleanup throws a \<^verbatim>\<open>TypeError\<close>. And with callback 1 alone under
  \<open>E\<close>, removing itself when it runs, \<^verbatim>\<open>emit("E", 42)\<close> does not return \<^verbatim>\<open>true\<close>: the
  property is gone when the loop condition is read again, which throws a \<^verbatim>\<open>TypeError\<close>.
\<close>

theorem emit_throws_instead_of_boolean:
  "events (new_emitter None) = [] \<and>
   emit (steady second_throws) (Str ''hasOwnProperty'') (42::int) (new_emitter None) =
     Some (Inl TypeError, new_emitter None, [Report (JsError TypeError)]) \<and>
   listeners (Str ''E'') one_listener = Inr [1] \<and>
   emit removing (Str ''E'') (42::int) one_listener =
     Some (Inl TypeError, new_emitter None, [Invoke 1 42])"
  by code_simp

text \<open>
  Claim C10. Whenever \<^verbatim>\<open>emit\<close> returns \<^verbatim>\<open>true\<close>, every record left under the event is
  persistent, whatever the listeners did to the emitter during the dispatch: the cleanup
  filters the sequence as it stands after the loop.
\<close>

theorem emit_leaves_only_persistent:
  assumes "emit run ev args s = Some (Inr True, s', tr)"
  shows "list_all persistent (records ev s')"
proof -
  from emit_cases [OF assms] obtain s1 where "s' = cleanup ev s1" by auto
  then show ?thesis by (simp add: records_cleanup list_all_iff)
qed

theorem emit_leaves_only_persistent_witness:
  "emit adding_once (Str ''E'') (42::int) mixed_listeners =
     Some (Inr True, one_listener, [Invoke 1 42, Invoke 1 42, Invoke 3 42]) \<and>
   list_all persistent (records (Str ''E'') one_listener)"
proof -
  have e: "emit adding_once (Str ''E'') (42::int) mixed_listeners =
             Some (Inr True, one_listener, [Invoke 1 42, Invoke 1 42, Invoke 3 42])"
    by code_simp
  from emit_leaves_only_persistent [OF e] e show ?thesis by simp
qed

section \<open>One-shot listeners\<close>





section \<open>Registration claims\<close>

text \<open>
  Claim C8, amended. For an event name that \<^verbatim>\<open>Object.prototype\<close> does not have, \<^verbatim>\<open>on\<close>
  and \<^verbatim>\<open>once\<close> raise no error and insert the record, at the head or at the tail, in every
  case; and \<^verbatim>\<open>on\<close> sends one warning that carries the configured maximum (10 by default)
  exactly when the length of the sequence before the insertion has reached the maximum,
  that is when the resulting length exceeds it.
\<close>

theorem registration_advisory:
  assumes "object_prototype (key_of ev) = None"
  shows "thrown (on ev l p s) = None \<and>
         thrown (once ev l p s) = None \<and>
         warned (on ev l p s) =
           (if maxListeners s \<le> int (length (records ev s)) then [Warn (maxListeners s)] else []) \<and>
         (warned (on ev l p s) \<noteq> [] \<longleftrightarrow>
            maxListeners s < int (length (records ev (fst (on ev l p s))))) \<and>
         records ev (fst (on ev l p s)) =
           (if p then \<lparr>listener = l, persistent = True\<rparr> # records ev s
            else records ev s @ [\<lparr>listener = l, persistent = True\<rparr>]) \<and>
         records ev (fst (once ev l p s)) =
           (if p then \<lparr>listener = l, persistent = False\<rparr> # records ev s
            else records ev s @ [\<lparr>listener = l, persistent = False\<rparr>]) \<and>
         listeners ev (fst (on ev l p s)) =
           Inr (if p then l # map listener (records ev s) else map listener (records ev s) @ [l]) \<and>
         listeners ev (fst (once ev l p s)) =
           Inr (if p then l # map listener (records ev s) else map listener (records ev s) @ [l]) \<and>
         maxListeners (new_emitter None) = 10"
proof -
  from assms have n: "\<not> inherited_only ev t" for t by (simp add: inherited_only_def)
  have "length (records ev (fst (on ev l p s))) = Suc (length (records ev s))"
    by (simp add: records_on n)
  then show ?thesis
    by (simp add: thrown_on thrown_once warned_on records_on records_once listeners_records n
                  new_emitter_def)
qed

theorem registration_advisory_witness:
  "thrown (on (Str ''E'') 3 False
             (fst (on (Str ''E'') 2 False (fst (on (Str ''E'') 1 False (new_emitter (Some 2))))))) = None \<and>
   warned (on (Str ''E'') 3 False
             (fst (on (Str ''E'') 2 False (fst (on (Str ''E'') 1 False (new_emitter (Some 2))))))) =
     [Warn 2]"
proof -
  have p: "object_prototype (key_of (Str ''E'')) = None" by code_simp
  have r: "records (Str ''E'')
             (fst (on (Str ''E'') 2 False (fst (on (Str ''E'') 1 False (new_emitter (Some 2)))))) =
           [\<lparr>listener = 1, persistent = True\<rparr>, \<lparr>listener = 2, persistent = True\<rparr>]"
    by code_simp
  have m: "maxListeners
             (fst (on (Str ''E'') 2 False (fst (on (Str ''E'') 1 False (new_emitter (Some 2)))))) = 2"
    by code_simp
  from registration_advisory
         [OF p, of 3 False
            "fst (on (Str ''E'') 2 False (fst (on (Str ''E'') 1 False (new_emitter (Some 2)))))"]
  have "thrown (on (Str ''E'') 3 False
                  (fst (on (Str ''E'') 2 False (fst (on (Str ''E'') 1 False (new_emitter (Some 2))))))) =
        None"
    and "warned (on (Str ''E'') 3 False
                  (fst (on (Str ''E'') 2 False (fst (on (Str ''E'') 1 False (new_emitter (Some 2))))))) =
         (if 2 \<le> int (length [\<lparr>listener = 1, persistent = True\<rparr>,
                                  \<lparr>listener = 2, persistent = True\<rparr>])
          then [Warn 2] else [])"
    unfolding r m by blast+
  then show ?thesis by simp
qed

text \<open>
  Claim C8 as stated fails: with a maximum of 2 and one listener registered, a second
  \<^verbatim>\<open>on\<close> makes the resulting length reach the maximum and logs nothing.
\<close>

theorem registration_advisory_counterexample:
  "maxListeners (fst (on (Str ''E'') 1 False (new_emitter (Some 2)))) = 2 \<and>
   listeners (Str ''E'')
     (fst (on (Str ''E'') 2 False (fst (on (Str ''E'') 1 False (new_emitter (Some 2)))))) =
     Inr [1, 2] \<and>
   warned (on (Str ''E'') 2 False (fst (on (Str ''E'') 1 False (new_emitter (Some 2))))) = [] \<and>
   thrown (on (Str ''E'') 2 False (fst (on (Str ''E'') 1 False (new_emitter (Some 2))))) = None"
  by code_simp

text \<open>
  Claim C9 fails on the code. Under the event name \<^verbatim>\<open>toString\<close>, which every object
  inherits from \<^verbatim>\<open>Object.prototype\<close>, a registration on a new emitter throws a \<^verbatim>\<open>TypeError\<close>
  and registers nothing, with \<^verbatim>\<open>on\<close> and with \<^verbatim>\<open>once\<close>, and \<^verbatim>\<open>listeners("toString")\<close> throws
  a \<^verbatim>\<open>TypeError\<close>, before and after, where the claim has it return the callbacks registered.
\<close>

theorem listeners_throws_for_inherited_name:
  "on (Str ''toString'') 7 False (new_emitter None) = (new_emitter None, [], Some TypeError) \<and>
   once (Str ''toString'') 7 False (new_emitter None) = (new_emitter None, [], Some TypeError) \<and>
   listeners (Str ''toString'') (new_emitter None) = Inl TypeError \<and>
   listeners (Str ''toString'') (fold (register (Str ''toString'')) [RegOn 7 False] (new_emitter None)) =
     Inl TypeError"
  by code_simp

end
